theory Spec2Isabelle
  imports Main "HOL-Library.Word" "HOL-Library.Signed_Division" "HOL-Library.Sublist"
begin

section \<open>Values shared by the examples\<close>

text \<open>
  The repository is a collection of independent Go teaching programs. Go's \<open>int\<close> is
  taken at its 64-bit width (the width on every 64-bit platform): arithmetic wraps
  around, and division truncates towards zero.
\<close>

type_synonym go_int = "64 word"

text \<open>A panic carries the value it was raised with; every panic below is raised with a string.\<close>

datatype panic = Panic string

text \<open>
  Go's \<open>a / b\<close> on \<open>int\<close> for \<open>b \<noteq> 0\<close>: the quotient truncated towards zero, wrapped
  to 64 bits (the one overflowing case, the most negative value divided by \<open>-1\<close>, yields
  the dividend). Division by zero is a run-time panic in Go and is never evaluated by
  the functions below, which test the divisor first.
\<close>

definition go_div :: "go_int \<Rightarrow> go_int \<Rightarrow> go_int" where
  "go_div a b = word_of_int (sint a sdiv sint b)"

text \<open>What a program printed (one entry per \<open>fmt.Println\<close> argument) and how it ended.\<close>

datatype printed = PStr string | PInt go_int

datatype exit = Exited "printed list list" | Crashed panic

section \<open>The division helper (src/unnamed/part\_001, second program)\<close>

text \<open>
  \<^verbatim>\<open>
  func divide(a, b int) int {
      if b == 0 {
          panic("division by zero")
      }
      return a / b
  }
  func main() {
      fmt.Println(divide(10, 0))
  }
  \<close>
\<close>

definition divide :: "go_int \<Rightarrow> go_int \<Rightarrow> panic + go_int" where
  "divide a b = (if b = 0 then Inl (Panic ''division by zero'') else Inr (go_div a b))"

text \<open>\<open>main\<close> has no \<open>recover\<close>: a panic of the argument ends the program before anything is printed.\<close>

definition main_divide :: exit where
  "main_divide = (case divide 10 0 of Inl p \<Rightarrow> Crashed p | Inr q \<Rightarrow> Exited [ [PInt q] ])"

section \<open>Slice helpers (src/05-how-to-use/main.go)\<close>

text \<open>
  \<^verbatim>\<open>
  func filter(slice []int, predicate func(int) bool) []int {
      var result []int
      for _, value := range slice {
          if predicate(value) {
              result = append(result, value)
          }
      }
      return result
  }
  \<close>
  The loop is a recursion over the remaining elements with \<open>result\<close> as accumulator.
\<close>

fun filter_loop :: "(go_int \<Rightarrow> bool) \<Rightarrow> go_int list \<Rightarrow> go_int list \<Rightarrow> go_int list" where
  "filter_loop predicate result [] = result"
| "filter_loop predicate result (value # rest) =
     filter_loop predicate (if predicate value then result @ [value] else result) rest"

definition filter_go :: "go_int list \<Rightarrow> (go_int \<Rightarrow> bool) \<Rightarrow> go_int list" where
  "filter_go sl predicate = filter_loop predicate [] sl"

text \<open>
  \<^verbatim>\<open>
  func mapSlice(slice []int, transform func(int) int) []int {
      result := make([]int, len(slice))
      for i, value := range slice {
          result[i] = transform(value)
      }
      return result
  }
  \<close>
  \<open>make\<close> yields a slice of zeros of the input's length; the loop stores at the running
  index \<open>i\<close>, which is always in range.
\<close>

fun mapSlice_loop ::
  "(go_int \<Rightarrow> go_int) \<Rightarrow> nat \<Rightarrow> go_int list \<Rightarrow> go_int list \<Rightarrow> go_int list" where
  "mapSlice_loop transform i [] result = result"
| "mapSlice_loop transform i (value # rest) result =
     mapSlice_loop transform (Suc i) rest (result[i := transform value])"

definition mapSlice :: "go_int list \<Rightarrow> (go_int \<Rightarrow> go_int) \<Rightarrow> go_int list" where
  "mapSlice sl transform = mapSlice_loop transform 0 sl (replicate (length sl) 0)"

section \<open>Recovering a panic (src/07-select/main.go, second program)\<close>

text \<open>
  \<^verbatim>\<open>
  func safeDivide(a, b int) (result int, err error) {
      defer func() {
          if r := recover(); r != nil {
              fmt.Println("Recovered from panic:", r)
              err = fmt.Errorf("error: %v", r)
          }
      }()
      if b == 0 {
          panic("division by zero")
      }
      return a / b, nil
  }
  func main() {
      result, err := safeDivide(10, 0)
      if err != nil {
          fmt.Println("Error:", err)
      } else {
          fmt.Println("Result:", result)
      }
  }
  \<close>
  The body either panics or executes its \<open>return\<close>, which assigns the named results.
  The deferred function runs in both cases: after a panic the named results still hold
  their zero values, \<open>recover\<close> yields the panic value, a line is printed and \<open>err\<close> is
  set; after a normal return \<open>recover\<close> yields nil and nothing changes. An error value
  is modelled by its message.
\<close>

definition safeDivide_body :: "go_int \<Rightarrow> go_int \<Rightarrow> panic + (go_int \<times> string option)" where
  "safeDivide_body a b =
     (if b = 0 then Inl (Panic ''division by zero'') else Inr (go_div a b, None))"

definition safeDivide :: "go_int \<Rightarrow> go_int \<Rightarrow> printed list list \<times> go_int \<times> string option" where
  "safeDivide a b =
     (case safeDivide_body a b of
        Inl (Panic r) \<Rightarrow> ([ [PStr ''Recovered from panic:'', PStr r] ], 0, Some (''error: '' @ r))
      | Inr (res, err) \<Rightarrow> ([], res, err))"

definition main_safeDivide :: exit where
  "main_safeDivide =
     (case safeDivide 10 0 of
        (out, res, Some e) \<Rightarrow> Exited (out @ [ [PStr ''Error:'', PStr e] ])
      | (out, res, None) \<Rightarrow> Exited (out @ [ [PStr ''Result:'', PInt res] ]))"

section \<open>Fan-out over goroutines (src/05-how-to-use/main.go)\<close>

text \<open>
  \<^verbatim>\<open>
  func parallelProcessing(slice []int, worker func(int) int) []int {
      var wg sync.WaitGroup
      result := make([]int, len(slice))
      for i, v := range slice {
          wg.Add(1)
          go func(i, v int) {
              defer wg.Done()
              result[i] = worker(v)
          }(i, v)
      }
      wg.Wait()
      return result
  }
  \<close>
  The function starts one goroutine per element and waits for all of them. Its runs are
  the interleavings of five kinds of step:
  \<^item> \<open>Launch\<close>: the main loop's next iteration, \<open>wg.Add(1)\<close> and the \<open>go\<close> statement,
    which passes \<open>(i, v)\<close> by value;
  \<^item> \<open>Body i\<close>: goroutine \<open>i\<close> runs \<open>result[i] = worker(v)\<close>;
  \<^item> \<open>Done i\<close>: goroutine \<open>i\<close> runs its deferred \<open>wg.Done()\<close>;
  \<^item> \<open>Wait\<close>: the loop is over, the counter is zero, \<open>wg.Wait()\<close> lets the function
    return \<open>result\<close> to its caller;
  \<^item> \<open>Crash i\<close>: goroutine \<open>i\<close>, unwound by a panic that nothing recovered, makes the Go
    runtime terminate the program.
  A task function may panic, so \<open>worker\<close> yields a panic or a value. Nothing in
  \<open>parallelProcessing\<close> recovers: a panic of \<open>worker\<close> skips the store to \<open>result[i]\<close>,
  runs the deferred \<open>wg.Done()\<close> and then terminates the program, while the other
  goroutines, and the caller once the function has returned, go on until it does.
\<close>

datatype action = Launch | Body nat | Done nat | Wait | Crash nat

datatype goroutine =
    Ready go_int     \<comment> \<open>started with argument \<open>v\<close>, body not yet run\<close>
  | Unwinding        \<comment> \<open>body has stored its result, deferred \<open>wg.Done()\<close> pending\<close>
  | Finished
  | Panicking panic  \<comment> \<open>body has panicked, deferred \<open>wg.Done()\<close> pending\<close>
  | Dying panic      \<comment> \<open>unwound by a panic, about to terminate the program\<close>

text \<open>
  \<open>Running\<close>: the call has not returned yet; \<open>Returned\<close>: it has returned \<open>result\<close> to
  its caller; \<open>Aborted p\<close>: the program has been terminated by the panic \<open>p\<close>.
\<close>

datatype run_status = Running | Returned | Aborted panic

fun alive :: "run_status \<Rightarrow> bool" where
  "alive (Aborted p) = False"
| "alive st = True"

record pp_state =
  next_i :: nat                \<comment> \<open>index of the main loop's next iteration\<close>
  wg :: nat                    \<comment> \<open>the WaitGroup counter\<close>
  gs :: "goroutine list"       \<comment> \<open>goroutine \<open>i\<close> is the one started for element \<open>i\<close>\<close>
  result :: "go_int list"
  calls :: "nat list"          \<comment> \<open>the elements \<open>worker\<close> has been called for, in call order\<close>
  status :: run_status

definition pp_init :: "go_int list \<Rightarrow> pp_state" where
  "pp_init sl = \<lparr>next_i = 0, wg = 0, gs = [], result = replicate (length sl) 0,
                 calls = [], status = Running\<rparr>"

text \<open>
  A step that is not enabled yields \<open>None\<close>. \<open>wg.Done()\<close> on a zero counter panics in
  Go (negative WaitGroup counter); the branch is part of the model.
\<close>

fun pp_step ::
  "go_int list \<Rightarrow> (go_int \<Rightarrow> panic + go_int) \<Rightarrow> action \<Rightarrow> pp_state \<Rightarrow> pp_state option" where
  "pp_step sl worker Launch s =
     (if status s = Running \<and> next_i s < length sl
      then Some (s\<lparr>wg := wg s + 1, gs := gs s @ [Ready (sl ! next_i s)],
                   next_i := Suc (next_i s)\<rparr>)
      else None)"
| "pp_step sl worker (Body i) s =
     (if alive (status s) \<and> i < length (gs s)
      then (case gs s ! i of
              Ready v \<Rightarrow>
                (case worker v of
                   Inl p \<Rightarrow> Some (s\<lparr>gs := (gs s)[i := Panicking p], calls := calls s @ [i]\<rparr>)
                 | Inr y \<Rightarrow> Some (s\<lparr>gs := (gs s)[i := Unwinding], calls := calls s @ [i],
                                     result := (result s)[i := y]\<rparr>))
            | _ \<Rightarrow> None)
      else None)"
| "pp_step sl worker (Done i) s =
     (if alive (status s) \<and> i < length (gs s)
      then (case gs s ! i of
              Unwinding \<Rightarrow>
                if wg s = 0
                then Some (s\<lparr>gs := (gs s)[i := Dying (Panic ''sync: negative WaitGroup counter'')]\<rparr>)
                else Some (s\<lparr>gs := (gs s)[i := Finished], wg := wg s - 1\<rparr>)
            | Panicking p \<Rightarrow>
                if wg s = 0
                then Some (s\<lparr>gs := (gs s)[i := Dying (Panic ''sync: negative WaitGroup counter'')]\<rparr>)
                else Some (s\<lparr>gs := (gs s)[i := Dying p], wg := wg s - 1\<rparr>)
            | _ \<Rightarrow> None)
      else None)"
| "pp_step sl worker Wait s =
     (if status s = Running \<and> next_i s = length sl \<and> wg s = 0
      then Some (s\<lparr>status := Returned\<rparr>)
      else None)"
| "pp_step sl worker (Crash i) s =
     (if alive (status s) \<and> i < length (gs s)
      then (case gs s ! i of
              Dying p \<Rightarrow> Some (s\<lparr>status := Aborted p\<rparr>)
            | _ \<Rightarrow> None)
      else None)"

fun pp_run ::
  "go_int list \<Rightarrow> (go_int \<Rightarrow> panic + go_int) \<Rightarrow> action list \<Rightarrow> pp_state \<Rightarrow> pp_state option" where
  "pp_run sl worker [] s = Some s"
| "pp_run sl worker (a # as) s =
     (case pp_step sl worker a s of None \<Rightarrow> None | Some s' \<Rightarrow> pp_run sl worker as s')"

text \<open>
  How a run has ended, in a state where no step is possible any more: with the slice the
  call returned, or with the panic that terminated the program. A returned call with a
  dying goroutine left has not ended yet.
\<close>

fun dying :: "goroutine \<Rightarrow> bool" where
  "dying (Dying p) = True"
| "dying g = False"

definition pp_outcome :: "pp_state \<Rightarrow> (panic + go_int list) option" where
  "pp_outcome s =
     (case status s of
        Running \<Rightarrow> None
      | Returned \<Rightarrow> if list_ex dying (gs s) then None else Some (Inr (result s))
      | Aborted p \<Rightarrow> Some (Inl p))"

text \<open>
  What a call comes to under a schedule. \<open>None\<close> marks a schedule that is no complete run:
  one of its steps is not enabled, or it stops while a step is still possible.
\<close>

definition parallelProcessing ::
  "go_int list \<Rightarrow> (go_int \<Rightarrow> panic + go_int) \<Rightarrow> action list \<Rightarrow> (panic + go_int list) option" where
  "parallelProcessing sl worker sched =
     (case pp_run sl worker sched (pp_init sl) of None \<Rightarrow> None | Some s \<Rightarrow> pp_outcome s)"

subsection \<open>What holds in every reachable state\<close>

text \<open>A goroutine counts in the WaitGroup from its start until its \<open>wg.Done()\<close>.\<close>

fun pending :: "goroutine \<Rightarrow> nat" where
  "pending (Ready v) = 1"
| "pending Unwinding = 1"
| "pending Finished = 0"
| "pending (Panicking p) = 1"
| "pending (Dying p) = 0"

fun called :: "goroutine \<Rightarrow> bool" where
  "called (Ready v) = False"
| "called g = True"

text \<open>
  How element \<open>v\<close>, the goroutine started for it and its result slot \<open>r\<close> belong together:
  the slot is zero until the body has run, then holds what \<open>worker\<close> returned, and stays
  zero when \<open>worker\<close> panicked.
\<close>

fun slot_ok :: "(go_int \<Rightarrow> panic + go_int) \<Rightarrow> go_int \<Rightarrow> goroutine \<Rightarrow> go_int \<Rightarrow> bool" where
  "slot_ok worker v (Ready u) r \<longleftrightarrow> u = v \<and> r = 0"
| "slot_ok worker v Unwinding r \<longleftrightarrow> worker v = Inr r"
| "slot_ok worker v Finished r \<longleftrightarrow> worker v = Inr r"
| "slot_ok worker v (Panicking p) r \<longleftrightarrow> worker v = Inl p \<and> r = 0"
| "slot_ok worker v (Dying p) r \<longleftrightarrow> worker v = Inl p \<and> r = 0"

definition inv_shape :: "go_int list \<Rightarrow> pp_state \<Rightarrow> bool" where
  "inv_shape sl s \<longleftrightarrow>
     length (result s) = length sl \<and> length (gs s) = next_i s \<and> next_i s \<le> length sl"

definition inv_slots :: "go_int list \<Rightarrow> (go_int \<Rightarrow> panic + go_int) \<Rightarrow> pp_state \<Rightarrow> bool" where
  "inv_slots sl worker s \<longleftrightarrow>
     (\<forall>i<length sl. if i < length (gs s) then slot_ok worker (sl ! i) (gs s ! i) (result s ! i)
                     else result s ! i = 0)"

definition inv_calls :: "pp_state \<Rightarrow> bool" where
  "inv_calls s \<longleftrightarrow>
     distinct (calls s) \<and> set (calls s) = {i. i < length (gs s) \<and> called (gs s ! i)}"

definition inv_status :: "go_int list \<Rightarrow> pp_state \<Rightarrow> bool" where
  "inv_status sl s \<longleftrightarrow>
     wg s = sum_list (map pending (gs s)) \<and>
     (case status s of
        Running \<Rightarrow> True
      | Returned \<Rightarrow> next_i s = length sl \<and> wg s = 0
      | Aborted p \<Rightarrow> (\<exists>i<length (gs s). gs s ! i = Dying p))"

definition pp_inv :: "go_int list \<Rightarrow> (go_int \<Rightarrow> panic + go_int) \<Rightarrow> pp_state \<Rightarrow> bool" where
  "pp_inv sl worker s \<longleftrightarrow>
     inv_shape sl s \<and> inv_slots sl worker s \<and> inv_calls s \<and> inv_status sl s"

text \<open>An upper bound on the steps a run has left: it decreases with every step.\<close>

fun steps_left :: "goroutine \<Rightarrow> nat" where
  "steps_left (Ready v) = 4"
| "steps_left Unwinding = 2"
| "steps_left Finished = 0"
| "steps_left (Panicking p) = 2"
| "steps_left (Dying p) = 1"

definition pp_left :: "go_int list \<Rightarrow> pp_state \<Rightarrow> nat" where
  "pp_left sl s =
     (case status s of
        Running \<Rightarrow> 1 + 5 * (length sl - next_i s) + sum_list (map steps_left (gs s))
      | Returned \<Rightarrow> sum_list (map steps_left (gs s))
      | Aborted p \<Rightarrow> 0)"

section \<open>A buffered channel as a semaphore (src/07-errors/main.go)\<close>

text \<open>
  \<^verbatim>\<open>
  func exampleSyncBestPractices() {
      var wg sync.WaitGroup
      ch := make(chan int, 5)
      for i := 0; i < 10; i++ {
          wg.Add(1)
          go func(i int) {
              defer wg.Done()
              ch <- i
              defer func() { <-ch }()
              fmt.Println("Processing task", i)
              time.Sleep(time.Second)
          }(i)
      }
      wg.Wait()
      fmt.Println("All tasks processed")
  }
  \<close>
  \<open>exampleDataRace\<close> in the same file has the same shape with \<open>make(chan int, 1)\<close>: each
  of its ten goroutines runs \<open>ch <- 1; counter++; <-ch\<close> before its deferred \<open>wg.Done()\<close>.

  A task is executing between its send on \<open>ch\<close> and its receive from \<open>ch\<close>. The send
  blocks while the buffer is full, so the buffer's capacity is the number of tasks that
  may execute at once. The capacity, the number of tasks and the value a task sends are
  parameters of the model; the two functions are its instances. Its steps:
  \<^item> \<open>Start\<close>: the main loop's next iteration, \<open>wg.Add(1)\<close> and the \<open>go\<close> statement;
  \<^item> \<open>Acquire i\<close>: task \<open>i\<close> sends on \<open>ch\<close> (possible only while the buffer is not full)
    and starts executing;
  \<^item> \<open>Release i\<close>: task \<open>i\<close> stops executing: it receives from \<open>ch\<close> and runs its
    deferred \<open>wg.Done()\<close>;
  \<^item> \<open>Finish\<close>: the loop is over and the counter is zero, \<open>wg.Wait()\<close> returns.
  What a task does while executing (printing and sleeping, or \<open>counter++\<close>) touches
  neither the channel nor the WaitGroup. A receive on an empty buffer would block, and a
  \<open>wg.Done()\<close> on a zero counter would panic and terminate the program; both branches are
  part of the model.
\<close>

datatype sem_action = Start | Acquire nat | Release nat | Finish

datatype task = Blocked | Working | Released

record sem_state =
  started :: nat               \<comment> \<open>the main loop's \<open>i\<close>\<close>
  sem_wg :: nat                \<comment> \<open>the WaitGroup counter\<close>
  ch :: "go_int list"          \<comment> \<open>the channel's buffer, oldest value first\<close>
  tasks :: "task list"
  sem_status :: run_status

definition sem_init :: sem_state where
  "sem_init = \<lparr>started = 0, sem_wg = 0, ch = [], tasks = [], sem_status = Running\<rparr>"

fun sem_step ::
  "nat \<Rightarrow> nat \<Rightarrow> (nat \<Rightarrow> go_int) \<Rightarrow> sem_action \<Rightarrow> sem_state \<Rightarrow> sem_state option" where
  "sem_step cap n sent Start s =
     (if sem_status s = Running \<and> started s < n
      then Some (s\<lparr>sem_wg := sem_wg s + 1, tasks := tasks s @ [Blocked],
                   started := Suc (started s)\<rparr>)
      else None)"
| "sem_step cap n sent (Acquire i) s =
     (if sem_status s = Running \<and> i < length (tasks s) \<and> tasks s ! i = Blocked \<and>
         length (ch s) < cap
      then Some (s\<lparr>ch := ch s @ [sent i], tasks := (tasks s)[i := Working]\<rparr>)
      else None)"
| "sem_step cap n sent (Release i) s =
     (if sem_status s = Running \<and> i < length (tasks s) \<and> tasks s ! i = Working
      then (case ch s of
              [] \<Rightarrow> None
            | x # rest \<Rightarrow>
                if sem_wg s = 0
                then Some (s\<lparr>ch := rest, tasks := (tasks s)[i := Released],
                             sem_status := Aborted (Panic ''sync: negative WaitGroup counter'')\<rparr>)
                else Some (s\<lparr>ch := rest, tasks := (tasks s)[i := Released],
                             sem_wg := sem_wg s - 1\<rparr>))
      else None)"
| "sem_step cap n sent Finish s =
     (if sem_status s = Running \<and> started s = n \<and> sem_wg s = 0
      then Some (s\<lparr>sem_status := Returned\<rparr>)
      else None)"

fun sem_run ::
  "nat \<Rightarrow> nat \<Rightarrow> (nat \<Rightarrow> go_int) \<Rightarrow> sem_action list \<Rightarrow> sem_state \<Rightarrow> sem_state option" where
  "sem_run cap n sent [] s = Some s"
| "sem_run cap n sent (a # as) s =
     (case sem_step cap n sent a s of None \<Rightarrow> None | Some s' \<Rightarrow> sem_run cap n sent as s')"

definition exampleSyncBestPractices :: "sem_action list \<Rightarrow> sem_state option" where
  "exampleSyncBestPractices sched = sem_run 5 10 of_nat sched sem_init"

definition exampleDataRace :: "sem_action list \<Rightarrow> sem_state option" where
  "exampleDataRace sched = sem_run 1 10 (\<lambda>i. 1) sched sem_init"

text \<open>The number of tasks executing in a state.\<close>

fun executing :: "task \<Rightarrow> nat" where
  "executing Working = 1"
| "executing t = 0"

definition overlap :: "sem_state \<Rightarrow> nat" where
  "overlap s = sum_list (map executing (tasks s))"

text \<open>A task counts in the WaitGroup until it has released its slot.\<close>

fun unreleased :: "task \<Rightarrow> nat" where
  "unreleased Released = 0"
| "unreleased t = 1"

section \<open>Properties of the division helper\<close>

text \<open>
  Read as signed numbers, \<open>go_div\<close> is the quotient truncated towards zero, except in
  the one case where that quotient does not fit into 64 bits.
\<close>

lemma sint_go_div:
  assumes "\<not> (sint a = - (2 ^ 63) \<and> sint b = - 1)"
  shows "sint (go_div a b) = sint a sdiv sint b"
proof -
  have ra: "- (2 ^ 63) \<le> sint a" "sint a < 2 ^ 63"
    using sint_ge [of a] sint_lt [of a] by simp_all
  have rng: "- \<bar>sint a\<bar> \<le> sint a sdiv sint b" "sint a sdiv sint b \<le> \<bar>sint a\<bar>"
    using sdiv_int_range [of "sint a" "sint b"] by simp_all
  have lo: "- (2 ^ 63) \<le> sint a sdiv sint b"
    using ra rng by linarith
  have hi: "sint a sdiv sint b < 2 ^ 63"
  proof (rule ccontr)
    assume "\<not> sint a sdiv sint b < 2 ^ 63"
    with ra rng have eq: "sint a = - (2 ^ 63)" "sint a sdiv sint b = - sint a"
      by linarith+
    from eq(1) have "sint a \<noteq> 0" by simp
    with eq(2) have "sint b = - 1" by simp
    with eq(1) assms show False by simp
  qed
  have "(sint a sdiv sint b + 2 ^ 63) mod 2 ^ 64 = sint a sdiv sint b + 2 ^ 63"
    using lo hi by (intro mod_pos_pos_trivial) simp_all
  then show ?thesis
    unfolding go_div_def by (simp add: int_word_sint)
qed

text \<open>
  C8: \<open>divide a b\<close> panics, with the message "division by zero", exactly when \<open>b = 0\<close>;
  for every other divisor it returns Go's quotient \<open>a / b\<close> (the truncated quotient of
  the signed values whenever that fits); and \<open>main\<close>, which calls \<open>divide(10, 0)\<close>
  without recovering, ends with that panic instead of printing a value.
\<close>

theorem divide_panics_iff_zero:
  "(divide a b = Inl (Panic ''division by zero'') \<longleftrightarrow> b = 0) \<and>
   ((\<exists>p. divide a b = Inl p) \<longleftrightarrow> b = 0) \<and>
   (b \<noteq> 0 \<longrightarrow> divide a b = Inr (go_div a b)) \<and>
   (b \<noteq> 0 \<and> \<not> (sint a = - (2 ^ 63) \<and> sint b = - 1) \<longrightarrow>
      (\<exists>q. divide a b = Inr q \<and> sint q = sint a sdiv sint b)) \<and>
   main_divide = Crashed (Panic ''division by zero'')"
  by (simp add: divide_def main_divide_def sint_go_div)

theorem divide_panics_iff_zero_witness:
  "(2 :: go_int) \<noteq> 0 \<and> \<not> (sint (- 7 :: go_int) = - (2 ^ 63) \<and> sint (2 :: go_int) = - 1) \<and>
   divide (- 7) 2 = Inr (- 3) \<and> divide 10 0 = Inl (Panic ''division by zero'') \<and>
   main_divide = Crashed (Panic ''division by zero'')"
  using divide_panics_iff_zero [of "- 7" 2] divide_panics_iff_zero [of 10 0]
  by (simp add: go_div_def)

section \<open>Properties of the slice helpers\<close>

lemma filter_loop_eq: "filter_loop p acc xs = acc @ filter p xs"
  by (induction xs arbitrary: acc) simp_all

text \<open>
  C10: \<open>filter\<close> returns exactly the elements of the slice that satisfy the predicate,
  in their original order: it equals the list filter, its elements are the satisfying
  elements, it is a subsequence of the input, and it is empty when no element satisfies
  the predicate.
\<close>

theorem filter_go_is_filter:
  "filter_go sl p = filter p sl \<and>
   set (filter_go sl p) = {x \<in> set sl. p x} \<and>
   subseq (filter_go sl p) sl \<and>
   ((\<forall>x\<in>set sl. \<not> p x) \<longrightarrow> filter_go sl p = [])"
  by (simp add: filter_go_def filter_loop_eq filter_empty_conv subseq_filter_left)

theorem filter_go_is_filter_witness:
  "filter_go [1, 2, 3, 4] even = [2, 4] \<and>
   \<not> even (1 :: go_int) \<and> \<not> even (3 :: go_int) \<and> filter_go [1, 3] even = []"
  using filter_go_is_filter [of "[1, 2, 3, 4]" even] filter_go_is_filter [of "[1, 3]" even]
  by simp

lemma mapSlice_loop_eq:
  "length res = i + length rest \<Longrightarrow> mapSlice_loop t i rest res = take i res @ map t rest"
proof (induction rest arbitrary: i res)
  case Nil
  then show ?case by simp
next
  case (Cons v rest)
  from Cons.prems have i: "i < length res" by simp
  from Cons.prems have "length (res[i := t v]) = Suc i + length rest" by simp
  from Cons.IH [OF this]
  have "mapSlice_loop t (Suc i) rest (res[i := t v]) = take (Suc i) (res[i := t v]) @ map t rest" .
  moreover have "take (Suc i) (res[i := t v]) = take i res @ [t v]"
    using i by (simp add: take_Suc_conv_app_nth)
  ultimately show ?case by simp
qed

lemma mapSlice_eq_map: "mapSlice sl t = map t sl"
  by (simp add: mapSlice_def mapSlice_loop_eq)

section \<open>Properties of the fan-out\<close>

subsection \<open>Counting pending goroutines\<close>

lemma sum_list_map_update:
  "i < length xs \<Longrightarrow>
   sum_list (map f (xs[i := y])) + f (xs ! i) = sum_list (map f xs) + (f y :: nat)"
proof (induction xs arbitrary: i)
  case Nil
  then show ?case by simp
next
  case (Cons x xs)
  show ?case
  proof (cases i)
    case 0
    then show ?thesis by simp
  next
    case (Suc j)
    with Cons.prems have "j < length xs" by simp
    from Cons.IH [OF this] show ?thesis using Suc by simp
  qed
qed

lemma sum_list_map_ge:
  "i < length xs \<Longrightarrow> (f (xs ! i) :: nat) \<le> sum_list (map f xs)"
proof (induction xs arbitrary: i)
  case Nil
  then show ?case by simp
next
  case (Cons x xs)
  show ?case
  proof (cases i)
    case 0
    then show ?thesis by simp
  next
    case (Suc j)
    with Cons.prems have "j < length xs" by simp
    from Cons.IH [OF this] show ?thesis using Suc by simp
  qed
qed

subsection \<open>The invariant\<close>

lemma pp_inv_init: "pp_inv sl worker (pp_init sl)"
  by (simp add: pp_inv_def pp_init_def inv_shape_def inv_slots_def inv_calls_def inv_status_def)

lemma pp_invD:
  assumes "pp_inv sl worker s"
  shows "inv_shape sl s" "inv_slots sl worker s" "inv_calls s" "inv_status sl s"
  using assms by (simp_all add: pp_inv_def)

lemma inv_slotsD:
  assumes "inv_slots sl worker s" "i < length sl"
  shows "if i < length (gs s) then slot_ok worker (sl ! i) (gs s ! i) (result s ! i)
         else result s ! i = 0"
  using assms unfolding inv_slots_def by blast

lemma inv_slots_update:
  assumes old: "inv_slots sl worker s"
    and i: "i < length (gs s)" "i < length sl"
    and len: "length (gs s') = length (gs s)"
    and same: "\<And>j. j \<noteq> i \<Longrightarrow> gs s' ! j = gs s ! j \<and> result s' ! j = result s ! j"
    and new: "slot_ok worker (sl ! i) (gs s' ! i) (result s' ! i)"
  shows "inv_slots sl worker s'"
  unfolding inv_slots_def
proof (intro allI impI)
  fix j assume j: "j < length sl"
  show "if j < length (gs s') then slot_ok worker (sl ! j) (gs s' ! j) (result s' ! j)
        else result s' ! j = 0"
  proof (cases "j = i")
    case True
    with new i len show ?thesis by simp
  next
    case False
    with inv_slotsD [OF old j] same [OF False] len show ?thesis by simp
  qed
qed

lemma inv_calls_same:
  assumes old: "inv_calls s" and c: "calls s' = calls s"
    and len: "length (gs s') = length (gs s)"
    and same: "\<And>j. j < length (gs s) \<Longrightarrow> called (gs s' ! j) = called (gs s ! j)"
  shows "inv_calls s'"
proof -
  have "{j. j < length (gs s') \<and> called (gs s' ! j)} = {j. j < length (gs s) \<and> called (gs s ! j)}"
  proof (rule set_eqI)
    fix j
    show "j \<in> {j. j < length (gs s') \<and> called (gs s' ! j)} \<longleftrightarrow>
          j \<in> {j. j < length (gs s) \<and> called (gs s ! j)}"
      using len same [of j] by auto
  qed
  with old c show ?thesis by (simp add: inv_calls_def)
qed

lemma inv_status_wg:
  "inv_status sl s \<Longrightarrow> wg s = sum_list (map pending (gs s))"
  unfolding inv_status_def by (rule conjunct1)

lemma inv_status_Returned:
  assumes "inv_status sl s" "status s = Returned"
  shows "next_i s = length sl" "wg s = 0"
proof -
  from assms(1) have "case status s of Running \<Rightarrow> True
      | Returned \<Rightarrow> next_i s = length sl \<and> wg s = 0
      | Aborted p \<Rightarrow> (\<exists>i<length (gs s). gs s ! i = Dying p)"
    unfolding inv_status_def by (rule conjunct2)
  then have "next_i s = length sl \<and> wg s = 0"
    by (simp only: assms(2) run_status.case)
  then show "next_i s = length sl" "wg s = 0" by blast+
qed

lemma inv_status_Aborted:
  assumes "inv_status sl s" "status s = Aborted p"
  shows "\<exists>i<length (gs s). gs s ! i = Dying p"
proof -
  from assms(1) have "case status s of Running \<Rightarrow> True
      | Returned \<Rightarrow> next_i s = length sl \<and> wg s = 0
      | Aborted p \<Rightarrow> (\<exists>i<length (gs s). gs s ! i = Dying p)"
    unfolding inv_status_def by (rule conjunct2)
  then show ?thesis by (simp only: assms(2) run_status.case)
qed

lemma pending_le_wg:
  assumes st: "inv_status sl s" and i: "i < length (gs s)"
  shows "pending (gs s ! i) \<le> wg s"
proof -
  from st have "wg s = sum_list (map pending (gs s))" by (rule inv_status_wg)
  with sum_list_map_ge [OF i, of pending] show ?thesis by simp
qed

lemma wg_after_update:
  assumes st: "inv_status sl s" and i: "i < length (gs s)"
  shows "wg s + pending g = sum_list (map pending ((gs s)[i := g])) + pending (gs s ! i)"
proof -
  from st have "wg s = sum_list (map pending (gs s))" by (rule inv_status_wg)
  with sum_list_map_update [OF i, of pending g] show ?thesis by simp
qed

lemma Launch_elim:
  assumes "pp_step sl worker Launch s = Some s'"
  shows "status s = Running" "next_i s < length sl"
    "s' = s\<lparr>wg := wg s + 1, gs := gs s @ [Ready (sl ! next_i s)], next_i := Suc (next_i s)\<rparr>"
  using assms by (simp_all split: if_splits)

lemma pp_inv_Launch:
  assumes inv: "pp_inv sl worker s" and step: "pp_step sl worker Launch s = Some s'"
  shows "pp_inv sl worker s'"
proof -
  note e = Launch_elim [OF step]
  note i = pp_invD [OF inv]
  have len: "length (gs s) = next_i s" using i(1) by (simp add: inv_shape_def)
  have 1: "inv_shape sl s'"
    using i(1) e(2) by (simp add: inv_shape_def e(3))
  have 2: "inv_slots sl worker s'"
    unfolding inv_slots_def
  proof (intro allI impI)
    fix j assume j: "j < length sl"
    from inv_slotsD [OF i(2) j] len
    show "if j < length (gs s') then slot_ok worker (sl ! j) (gs s' ! j) (result s' ! j)
          else result s' ! j = 0"
      by (auto simp: e(3) nth_append less_Suc_eq split: if_splits)
  qed
  have 3: "inv_calls s'"
  proof -
    have "{j. j < length (gs s') \<and> called (gs s' ! j)} = {j. j < length (gs s) \<and> called (gs s ! j)}"
      by (auto simp: e(3) nth_append less_Suc_eq)
    with i(3) show ?thesis by (simp add: inv_calls_def e(3))
  qed
  have 4: "inv_status sl s'"
    using i(4) e(1) by (simp add: inv_status_def e(3))
  from 1 2 3 4 show ?thesis by (simp add: pp_inv_def)
qed

lemma Wait_elim:
  assumes "pp_step sl worker Wait s = Some s'"
  shows "status s = Running" "next_i s = length sl" "wg s = 0" "s' = s\<lparr>status := Returned\<rparr>"
  using assms by (simp_all split: if_splits)

lemma pp_inv_Wait:
  assumes inv: "pp_inv sl worker s" and step: "pp_step sl worker Wait s = Some s'"
  shows "pp_inv sl worker s'"
proof -
  note e = Wait_elim [OF step]
  note i = pp_invD [OF inv]
  have 1: "inv_shape sl s'" using i(1) by (simp add: inv_shape_def e(4))
  have 2: "inv_slots sl worker s'" using i(2) by (simp add: inv_slots_def e(4))
  have 3: "inv_calls s'" using i(3) by (simp add: inv_calls_def e(4))
  have 4: "inv_status sl s'" using i(4) e(2,3) by (simp add: inv_status_def e(4))
  from 1 2 3 4 show ?thesis by (simp add: pp_inv_def)
qed

lemma Crash_elim:
  assumes "pp_step sl worker (Crash i) s = Some s'"
  obtains p where "alive (status s)" "i < length (gs s)" "gs s ! i = Dying p"
    "s' = s\<lparr>status := Aborted p\<rparr>"
  using assms by (auto split: if_splits goroutine.splits)

lemma pp_inv_Crash:
  assumes inv: "pp_inv sl worker s" and step: "pp_step sl worker (Crash i) s = Some s'"
  shows "pp_inv sl worker s'"
proof -
  from step obtain p where e: "i < length (gs s)" "gs s ! i = Dying p"
    "s' = s\<lparr>status := Aborted p\<rparr>"
    by (rule Crash_elim)
  note i = pp_invD [OF inv]
  have 1: "inv_shape sl s'" using i(1) by (simp add: inv_shape_def e(3))
  have 2: "inv_slots sl worker s'" using i(2) by (simp add: inv_slots_def e(3))
  have 3: "inv_calls s'" using i(3) by (simp add: inv_calls_def e(3))
  from i(4) have w: "wg s = sum_list (map pending (gs s))" by (simp add: inv_status_def)
  from e(1,2) have "\<exists>j<length (gs s). gs s ! j = Dying p" by blast
  with w have 4: "inv_status sl s'" by (simp add: inv_status_def e(3))
  from 1 2 3 4 show ?thesis by (simp add: pp_inv_def)
qed

lemma pending_Running:
  assumes st: "inv_status sl s" and al: "alive (status s)"
    and i: "i < length (gs s)" and one: "pending (gs s ! i) = 1"
  shows "status s = Running" "wg s \<noteq> 0"
proof -
  from pending_le_wg [OF st i] one show pos: "wg s \<noteq> 0" by simp
  show "status s = Running"
  proof (cases "status s")
    case Running
    then show ?thesis .
  next
    case Returned
    with st have "wg s = 0" by (rule inv_status_Returned)
    with pos show ?thesis by simp
  next
    case (Aborted p)
    with al show ?thesis by simp
  qed
qed

lemma Done_elim:
  assumes "pp_step sl worker (Done i) s = Some s'"
  obtains g where "alive (status s)" "i < length (gs s)"
    "gs s ! i = Unwinding \<and> g = Finished \<or> (\<exists>p. gs s ! i = Panicking p \<and> g = Dying p)"
    "if wg s = 0
     then s' = s\<lparr>gs := (gs s)[i := Dying (Panic ''sync: negative WaitGroup counter'')]\<rparr>
     else s' = s\<lparr>gs := (gs s)[i := g], wg := wg s - 1\<rparr>"
  using assms by (auto split: if_splits goroutine.splits)

lemma pp_inv_Done:
  assumes inv: "pp_inv sl worker s" and step: "pp_step sl worker (Done i) s = Some s'"
  shows "pp_inv sl worker s'"
proof -
  from step obtain g where al: "alive (status s)" and i: "i < length (gs s)"
    and g: "gs s ! i = Unwinding \<and> g = Finished \<or> (\<exists>p. gs s ! i = Panicking p \<and> g = Dying p)"
    and eff: "if wg s = 0
     then s' = s\<lparr>gs := (gs s)[i := Dying (Panic ''sync: negative WaitGroup counter'')]\<rparr>
     else s' = s\<lparr>gs := (gs s)[i := g], wg := wg s - 1\<rparr>"
    by (rule Done_elim)
  note v = pp_invD [OF inv]
  from g have one: "pending (gs s ! i) = 1" and zero: "pending g = 0"
    and cg: "called g" "called (gs s ! i)" by auto
  note r = pending_Running [OF v(4) al i one]
  from eff r(2) have s': "s' = s\<lparr>gs := (gs s)[i := g], wg := wg s - 1\<rparr>" by simp
  from v(1) i have isl: "i < length sl" by (simp add: inv_shape_def)
  have 1: "inv_shape sl s'" using v(1) by (simp add: inv_shape_def s')
  have 2: "inv_slots sl worker s'"
  proof (rule inv_slots_update [OF v(2) i isl])
    show "length (gs s') = length (gs s)" by (simp add: s')
    show "gs s' ! j = gs s ! j \<and> result s' ! j = result s ! j" if "j \<noteq> i" for j
      using that by (simp add: s')
    from inv_slotsD [OF v(2) isl] i
    have "slot_ok worker (sl ! i) (gs s ! i) (result s ! i)" by simp
    with g have "slot_ok worker (sl ! i) g (result s ! i)" by auto
    with i show "slot_ok worker (sl ! i) (gs s' ! i) (result s' ! i)" by (simp add: s')
  qed
  have 3: "inv_calls s'"
  proof (rule inv_calls_same [OF v(3)])
    show "calls s' = calls s" by (simp add: s')
    show "length (gs s') = length (gs s)" by (simp add: s')
    show "called (gs s' ! j) = called (gs s ! j)" if "j < length (gs s)" for j
      using that cg by (cases "j = i") (simp_all add: s')
  qed
  have 4: "inv_status sl s'"
  proof -
    from wg_after_update [OF v(4) i, of g] one zero
    have "wg s - 1 = sum_list (map pending ((gs s)[i := g]))" by simp
    with r(1) show ?thesis by (simp add: inv_status_def s')
  qed
  from 1 2 3 4 show ?thesis by (simp add: pp_inv_def)
qed

lemma Body_elim:
  assumes "pp_step sl worker (Body i) s = Some s'"
  obtains v where "alive (status s)" "i < length (gs s)" "gs s ! i = Ready v"
    "case worker v of
       Inl p \<Rightarrow> s' = s\<lparr>gs := (gs s)[i := Panicking p], calls := calls s @ [i]\<rparr>
     | Inr y \<Rightarrow> s' = s\<lparr>gs := (gs s)[i := Unwinding], calls := calls s @ [i],
                       result := (result s)[i := y]\<rparr>"
  using assms by (auto split: if_splits goroutine.splits sum.splits)

lemma calls_after_Body:
  assumes ca: "inv_calls s" and i: "i < length (gs s)" and r: "gs s ! i = Ready v"
    and g: "called g"
  shows "distinct (calls s @ [i]) \<and>
         set (calls s @ [i]) = {j. j < length ((gs s)[i := g]) \<and> called ((gs s)[i := g] ! j)}"
proof -
  from ca r i have notin: "i \<notin> set (calls s)" by (simp add: inv_calls_def)
  have "{j. j < length (gs s) \<and> called ((gs s)[i := g] ! j)}
        = insert i {j. j < length (gs s) \<and> called (gs s ! j)}"
    using i g by (auto simp: nth_list_update)
  with ca notin show ?thesis by (simp add: inv_calls_def)
qed

lemma pp_inv_Body:
  assumes inv: "pp_inv sl worker s" and step: "pp_step sl worker (Body i) s = Some s'"
  shows "pp_inv sl worker s'"
proof -
  note v = pp_invD [OF inv]
  from step obtain x where al: "alive (status s)" and i: "i < length (gs s)"
    and r: "gs s ! i = Ready x"
    and eff: "case worker x of
       Inl p \<Rightarrow> s' = s\<lparr>gs := (gs s)[i := Panicking p], calls := calls s @ [i]\<rparr>
     | Inr y \<Rightarrow> s' = s\<lparr>gs := (gs s)[i := Unwinding], calls := calls s @ [i],
                       result := (result s)[i := y]\<rparr>"
    by (rule Body_elim)
  from v(1) i have isl: "i < length sl" and lenr: "length (result s) = length sl"
    by (simp_all add: inv_shape_def)
  from inv_slotsD [OF v(2) isl] i r have x: "x = sl ! i" and zero: "result s ! i = 0"
    by simp_all
  from r have one: "pending (gs s ! i) = 1" by simp
  note run = pending_Running [OF v(4) al i one]
  show ?thesis
  proof (cases "worker x")
    case (Inl p)
    with eff have s': "s' = s\<lparr>gs := (gs s)[i := Panicking p], calls := calls s @ [i]\<rparr>"
      by simp
    have 1: "inv_shape sl s'" using v(1) by (simp add: inv_shape_def s')
    have 2: "inv_slots sl worker s'"
    proof (rule inv_slots_update [OF v(2) i isl])
      show "length (gs s') = length (gs s)" by (simp add: s')
      show "gs s' ! j = gs s ! j \<and> result s' ! j = result s ! j" if "j \<noteq> i" for j
        using that by (simp add: s')
      show "slot_ok worker (sl ! i) (gs s' ! i) (result s' ! i)"
        using i x Inl zero by (simp add: s')
    qed
    have 3: "inv_calls s'"
      using calls_after_Body [OF v(3) i r, of "Panicking p"] by (simp add: inv_calls_def s')
    have 4: "inv_status sl s'"
    proof -
      from wg_after_update [OF v(4) i, of "Panicking p"] one
      have "wg s = sum_list (map pending ((gs s)[i := Panicking p]))" by simp
      with run(1) show ?thesis by (simp add: inv_status_def s')
    qed
    from 1 2 3 4 show ?thesis by (simp add: pp_inv_def)
  next
    case (Inr y)
    with eff have s': "s' = s\<lparr>gs := (gs s)[i := Unwinding], calls := calls s @ [i],
                               result := (result s)[i := y]\<rparr>" by simp
    have 1: "inv_shape sl s'" using v(1) by (simp add: inv_shape_def s')
    have 2: "inv_slots sl worker s'"
    proof (rule inv_slots_update [OF v(2) i isl])
      show "length (gs s') = length (gs s)" by (simp add: s')
      show "gs s' ! j = gs s ! j \<and> result s' ! j = result s ! j" if "j \<noteq> i" for j
        using that by (simp add: s')
      show "slot_ok worker (sl ! i) (gs s' ! i) (result s' ! i)"
        using i isl lenr x Inr by (simp add: s')
    qed
    have 3: "inv_calls s'"
      using calls_after_Body [OF v(3) i r, of Unwinding] by (simp add: inv_calls_def s')
    have 4: "inv_status sl s'"
    proof -
      from wg_after_update [OF v(4) i, of Unwinding] one
      have "wg s = sum_list (map pending ((gs s)[i := Unwinding]))" by simp
      with run(1) show ?thesis by (simp add: inv_status_def s')
    qed
    from 1 2 3 4 show ?thesis by (simp add: pp_inv_def)
  qed
qed

lemma pp_inv_step:
  assumes "pp_inv sl worker s" "pp_step sl worker a s = Some s'"
  shows "pp_inv sl worker s'"
proof (cases a)
  case Launch
  with assms show ?thesis using pp_inv_Launch by blast
next
  case (Body i)
  with assms show ?thesis using pp_inv_Body by blast
next
  case (Done i)
  with assms show ?thesis using pp_inv_Done by blast
next
  case Wait
  with assms show ?thesis using pp_inv_Wait by blast
next
  case (Crash i)
  with assms show ?thesis using pp_inv_Crash by blast
qed

lemma pp_inv_run:
  assumes "pp_inv sl worker s" "pp_run sl worker sched s = Some s'"
  shows "pp_inv sl worker s'"
  using assms
proof (induction sched arbitrary: s)
  case Nil
  then show ?case by simp
next
  case (Cons a sched)
  from Cons.prems(2) obtain t where t: "pp_step sl worker a s = Some t"
    and rest: "pp_run sl worker sched t = Some s'"
    by (auto split: option.splits)
  from Cons.prems(1) t have "pp_inv sl worker t" by (rule pp_inv_step)
  from Cons.IH [OF this rest] show ?case .
qed

lemma pp_inv_reachable:
  "pp_run sl worker sched (pp_init sl) = Some s \<Longrightarrow> pp_inv sl worker s"
  using pp_inv_init by (rule pp_inv_run)


subsection \<open>Consequences for returned and aborted runs\<close>

lemma returned_goroutine:
  assumes inv: "pp_inv sl worker s" and ret: "status s = Returned" and i: "i < length sl"
  shows "i < length (gs s)" "gs s ! i = Finished \<or> (\<exists>p. gs s ! i = Dying p)"
proof -
  note v = pp_invD [OF inv]
  from inv_status_Returned [OF v(4) ret] have n: "next_i s = length sl" and w: "wg s = 0" .
  from v(1) n i show ig: "i < length (gs s)" by (simp add: inv_shape_def)
  from pending_le_wg [OF v(4) ig] w have "pending (gs s ! i) = 0" by simp
  then show "gs s ! i = Finished \<or> (\<exists>p. gs s ! i = Dying p)"
    by (cases "gs s ! i") simp_all
qed

lemma returned_slots:
  assumes inv: "pp_inv sl worker s" and ret: "status s = Returned" and i: "i < length sl"
    and y: "worker (sl ! i) = Inr y"
  shows "result s ! i = y"
proof -
  note g = returned_goroutine [OF inv ret i]
  from inv_slotsD [OF pp_invD(2) [OF inv] i] g(1)
  have ok: "slot_ok worker (sl ! i) (gs s ! i) (result s ! i)" by simp
  from g(2) show ?thesis
  proof
    assume "gs s ! i = Finished"
    with ok y show ?thesis by simp
  next
    assume "\<exists>p. gs s ! i = Dying p"
    with ok y show ?thesis by auto
  qed
qed

lemma returned_result:
  assumes inv: "pp_inv sl worker s" and ret: "status s = Returned"
    and f: "\<forall>i<length sl. worker (sl ! i) = Inr (f (sl ! i))"
  shows "result s = map f sl"
proof (rule nth_equalityI)
  from inv show len: "length (result s) = length (map f sl)"
    by (simp add: pp_inv_def inv_shape_def)
  fix i assume "i < length (result s)"
  with len have i: "i < length sl" by simp
  with f have "worker (sl ! i) = Inr (f (sl ! i))" by simp
  from returned_slots [OF inv ret i this] i show "result s ! i = map f sl ! i" by simp
qed

lemma dying_panics:
  assumes inv: "pp_inv sl worker s" and i: "i < length (gs s)" and d: "gs s ! i = Dying p"
  shows "i < length sl \<and> worker (sl ! i) = Inl p"
proof -
  note v = pp_invD [OF inv]
  from v(1) i have isl: "i < length sl" by (simp add: inv_shape_def)
  from inv_slotsD [OF v(2) isl] i d show ?thesis using isl by simp
qed

lemma aborted_panics:
  assumes inv: "pp_inv sl worker s" and ab: "status s = Aborted p"
  shows "\<exists>i<length sl. worker (sl ! i) = Inl p"
proof -
  from inv_status_Aborted [OF pp_invD(4) [OF inv] ab]
  obtain i where "i < length (gs s)" "gs s ! i = Dying p" by blast
  from dying_panics [OF inv this] show ?thesis by blast
qed

lemma list_ex_dying:
  "list_ex dying xs \<longleftrightarrow> (\<exists>i<length xs. \<exists>p. xs ! i = Dying p)"
proof
  assume "list_ex dying xs"
  then obtain g where g: "g \<in> set xs" "dying g" by (auto simp: list_ex_iff)
  then obtain i where i: "i < length xs" "xs ! i = g" by (auto simp: in_set_conv_nth)
  from g(2) obtain p where "g = Dying p" by (cases g) simp_all
  with i show "\<exists>i<length xs. \<exists>p. xs ! i = Dying p" by blast
next
  assume "\<exists>i<length xs. \<exists>p. xs ! i = Dying p"
  then obtain i p where i: "i < length xs" "xs ! i = Dying p" by blast
  then have "Dying p \<in> set xs" by (metis nth_mem)
  moreover have "dying (Dying p)" by simp
  ultimately have "\<exists>g\<in>set xs. dying g" by (rule bexI [rotated])
  then show "list_ex dying xs" by (simp add: list_ex_iff)
qed

lemma pp_run_append:
  "pp_run sl worker (xs @ ys) s =
     (case pp_run sl worker xs s of None \<Rightarrow> None | Some t \<Rightarrow> pp_run sl worker ys t)"
  by (induction xs arbitrary: s) (simp_all split: option.splits)

lemma pp_outcome_cases:
  assumes "pp_outcome s = Some out"
  shows "(status s = Returned \<and> \<not> list_ex dying (gs s) \<and> out = Inr (result s)) \<or>
         (\<exists>p. status s = Aborted p \<and> out = Inl p)"
  using assms by (cases "status s") (simp_all add: pp_outcome_def split: if_splits)


subsection \<open>Every run ends\<close>

lemma pp_left_init: "pp_left sl (pp_init sl) = 5 * length sl + 1"
  by (simp add: pp_left_def pp_init_def)

lemma pp_left_alive:
  assumes "alive (status s)"
  shows "pp_left sl s = (if status s = Running then 1 + 5 * (length sl - next_i s) else 0)
           + sum_list (map steps_left (gs s))"
  using assms by (cases "status s") (simp_all add: pp_left_def)

lemma decreases_gs_update:
  assumes al: "alive (status s)" and i: "i < length (gs s)"
    and less: "steps_left g < steps_left (gs s ! i)"
    and s': "status s' = status s" "next_i s' = next_i s" "gs s' = (gs s)[i := g]"
  shows "pp_left sl s' < pp_left sl s"
proof -
  have "sum_list (map steps_left ((gs s)[i := g])) + steps_left (gs s ! i)
        = sum_list (map steps_left (gs s)) + steps_left g"
    using i by (rule sum_list_map_update)
  with less have "sum_list (map steps_left ((gs s)[i := g])) < sum_list (map steps_left (gs s))"
    by linarith
  moreover from al s'(1) have "alive (status s')" by simp
  ultimately show ?thesis
    using al by (simp add: pp_left_alive s')
qed

lemma decreases_Launch:
  assumes step: "pp_step sl worker Launch s = Some s'"
  shows "pp_left sl s' < pp_left sl s"
proof -
  note e = Launch_elim [OF step]
  have "pp_left sl s = 1 + 5 * (length sl - next_i s) + sum_list (map steps_left (gs s))"
    using e(1) by (simp add: pp_left_def)
  moreover have "pp_left sl s' = 1 + 5 * (length sl - Suc (next_i s))
                   + (sum_list (map steps_left (gs s)) + 4)"
    using e(1) by (simp add: pp_left_def e(3))
  ultimately show ?thesis using e(2) by linarith
qed

lemma decreases_Wait:
  assumes step: "pp_step sl worker Wait s = Some s'"
  shows "pp_left sl s' < pp_left sl s"
proof -
  note e = Wait_elim [OF step]
  have "pp_left sl s' = sum_list (map steps_left (gs s))" by (simp add: pp_left_def e(4))
  moreover have "pp_left sl s = 1 + 5 * (length sl - next_i s) + sum_list (map steps_left (gs s))"
    using e(1) by (simp add: pp_left_def)
  ultimately show ?thesis by simp
qed

lemma decreases_Crash:
  assumes step: "pp_step sl worker (Crash i) s = Some s'"
  shows "pp_left sl s' < pp_left sl s"
proof -
  from step obtain p where al: "alive (status s)" and i: "i < length (gs s)"
    and d: "gs s ! i = Dying p" and s': "s' = s\<lparr>status := Aborted p\<rparr>"
    by (rule Crash_elim)
  have "steps_left (gs s ! i) \<le> sum_list (map steps_left (gs s))"
    using i by (rule sum_list_map_ge)
  with d have "0 < sum_list (map steps_left (gs s))" by simp
  then have "0 < pp_left sl s" using al by (simp add: pp_left_alive)
  moreover have "pp_left sl s' = 0" by (simp add: pp_left_def s')
  ultimately show ?thesis by simp
qed

lemma decreases_Done:
  assumes step: "pp_step sl worker (Done i) s = Some s'"
  shows "pp_left sl s' < pp_left sl s"
proof -
  from step obtain g where al: "alive (status s)" and i: "i < length (gs s)"
    and g: "gs s ! i = Unwinding \<and> g = Finished \<or> (\<exists>p. gs s ! i = Panicking p \<and> g = Dying p)"
    and eff: "if wg s = 0
     then s' = s\<lparr>gs := (gs s)[i := Dying (Panic ''sync: negative WaitGroup counter'')]\<rparr>
     else s' = s\<lparr>gs := (gs s)[i := g], wg := wg s - 1\<rparr>"
    by (rule Done_elim)
  from g have two: "steps_left (gs s ! i) = 2" and le: "steps_left g \<le> 1" by auto
  show ?thesis
  proof (cases "wg s = 0")
    case True
    with eff have s': "s' = s\<lparr>gs := (gs s)[i := Dying (Panic ''sync: negative WaitGroup counter'')]\<rparr>"
      by simp
    show ?thesis
      by (rule decreases_gs_update [OF al i, of "Dying (Panic ''sync: negative WaitGroup counter'')"])
         (simp_all add: two s')
  next
    case False
    with eff have s': "s' = s\<lparr>gs := (gs s)[i := g], wg := wg s - 1\<rparr>" by simp
    show ?thesis
      by (rule decreases_gs_update [OF al i, of g]) (use two le in \<open>simp_all add: s'\<close>)
  qed
qed

lemma decreases_Body:
  assumes step: "pp_step sl worker (Body i) s = Some s'"
  shows "pp_left sl s' < pp_left sl s"
proof -
  from step obtain x where al: "alive (status s)" and i: "i < length (gs s)"
    and r: "gs s ! i = Ready x"
    and eff: "case worker x of
       Inl p \<Rightarrow> s' = s\<lparr>gs := (gs s)[i := Panicking p], calls := calls s @ [i]\<rparr>
     | Inr y \<Rightarrow> s' = s\<lparr>gs := (gs s)[i := Unwinding], calls := calls s @ [i],
                       result := (result s)[i := y]\<rparr>"
    by (rule Body_elim)
  show ?thesis
  proof (cases "worker x")
    case (Inl p)
    with eff have s': "s' = s\<lparr>gs := (gs s)[i := Panicking p], calls := calls s @ [i]\<rparr>"
      by simp
    show ?thesis
      by (rule decreases_gs_update [OF al i, of "Panicking p"]) (simp_all add: r s')
  next
    case (Inr y)
    with eff have s': "s' = s\<lparr>gs := (gs s)[i := Unwinding], calls := calls s @ [i],
                               result := (result s)[i := y]\<rparr>" by simp
    show ?thesis
      by (rule decreases_gs_update [OF al i, of Unwinding]) (simp_all add: r s')
  qed
qed

lemma pp_step_decreases:
  assumes "pp_step sl worker a s = Some s'"
  shows "pp_left sl s' < pp_left sl s"
proof (cases a)
  case Launch
  with assms show ?thesis using decreases_Launch by blast
next
  case (Body i)
  with assms show ?thesis using decreases_Body by blast
next
  case (Done i)
  with assms show ?thesis using decreases_Done by blast
next
  case Wait
  with assms show ?thesis using decreases_Wait by blast
next
  case (Crash i)
  with assms show ?thesis using decreases_Crash by blast
qed

lemma pp_run_length:
  "pp_run sl worker sched s = Some s' \<Longrightarrow> length sched + pp_left sl s' \<le> pp_left sl s"
proof (induction sched arbitrary: s)
  case Nil
  then show ?case by simp
next
  case (Cons a sched)
  from Cons.prems obtain t where t: "pp_step sl worker a s = Some t"
    and rest: "pp_run sl worker sched t = Some s'"
    by (auto split: option.splits)
  from pp_step_decreases [OF t] Cons.IH [OF rest] show ?case by simp
qed


lemma some_pending:
  assumes "sum_list (map pending xs) \<noteq> 0"
  shows "\<exists>i<length xs. (\<exists>v. xs ! i = Ready v) \<or> xs ! i = Unwinding \<or> (\<exists>p. xs ! i = Panicking p)"
proof -
  have "\<not> (\<forall>g\<in>set xs. pending g = 0)"
  proof
    assume "\<forall>g\<in>set xs. pending g = 0"
    then have "sum_list (map pending xs) = 0" by simp
    with assms show False by contradiction
  qed
  then obtain g where g: "g \<in> set xs" "pending g \<noteq> 0" by blast
  then obtain i where i: "i < length xs" "xs ! i = g" by (auto simp: in_set_conv_nth)
  have "(\<exists>v. g = Ready v) \<or> g = Unwinding \<or> (\<exists>p. g = Panicking p)"
  proof (cases g)
  qed (use g(2) in simp_all)
  with i show ?thesis by blast
qed

lemma pp_progress:
  assumes inv: "pp_inv sl worker s" and none: "pp_outcome s = None"
  shows "\<exists>a s'. pp_step sl worker a s = Some s'"
proof (cases "status s")
  case Running
  note v = pp_invD [OF inv]
  show ?thesis
  proof (cases "next_i s < length sl")
    case True
    with Running have "\<exists>s'. pp_step sl worker Launch s = Some s'" by simp
    then show ?thesis by blast
  next
    case False
    with v(1) have n: "next_i s = length sl" by (simp add: inv_shape_def)
    show ?thesis
    proof (cases "wg s = 0")
      case True
      with Running n have "\<exists>s'. pp_step sl worker Wait s = Some s'" by simp
      then show ?thesis by blast
    next
      case False
      with inv_status_wg [OF v(4)] have "sum_list (map pending (gs s)) \<noteq> 0" by simp
      from some_pending [OF this] obtain i where i: "i < length (gs s)"
        and c: "(\<exists>v. gs s ! i = Ready v) \<or> gs s ! i = Unwinding \<or> (\<exists>p. gs s ! i = Panicking p)"
        by blast
      from c show ?thesis
      proof (elim disjE exE)
        fix x assume "gs s ! i = Ready x"
        with Running i have "\<exists>s'. pp_step sl worker (Body i) s = Some s'"
          by (cases "worker x") simp_all
        then show ?thesis by blast
      next
        assume "gs s ! i = Unwinding"
        with Running i have "\<exists>s'. pp_step sl worker (Done i) s = Some s'" by simp
        then show ?thesis by blast
      next
        fix p assume "gs s ! i = Panicking p"
        with Running i have "\<exists>s'. pp_step sl worker (Done i) s = Some s'" by simp
        then show ?thesis by blast
      qed
    qed
  qed
next
  case Returned
  with none have "list_ex dying (gs s)" by (simp add: pp_outcome_def split: if_splits)
  then obtain i p where "i < length (gs s)" "gs s ! i = Dying p"
    by (auto simp: list_ex_dying)
  with Returned have "pp_step sl worker (Crash i) s = Some (s\<lparr>status := Aborted p\<rparr>)" by simp
  then show ?thesis by blast
next
  case (Aborted p)
  with none show ?thesis by (simp add: pp_outcome_def)
qed

lemma pp_ended:
  assumes inv: "pp_inv sl worker s" and out: "pp_outcome s = Some out"
  shows "pp_step sl worker a s = None"
proof -
  from pp_outcome_cases [OF out] show ?thesis
  proof
    assume r: "status s = Returned \<and> \<not> list_ex dying (gs s) \<and> out = Inr (result s)"
    then have ret: "status s = Returned" and nd: "\<not> list_ex dying (gs s)" by simp_all
    have fin: "gs s ! i = Finished" if "i < length (gs s)" for i
    proof -
      note v = pp_invD [OF inv]
      from inv_status_Returned [OF v(4) ret] have w: "wg s = 0" by simp
      from pending_le_wg [OF v(4) that] w have "pending (gs s ! i) = 0" by simp
      moreover from nd that have "\<not> dying (gs s ! i)" by (auto simp: list_ex_iff)
      ultimately show ?thesis by (cases "gs s ! i") simp_all
    qed
    show ?thesis
    proof (cases a)
      case Launch
      with ret show ?thesis by simp
    next
      case (Body i)
      with fin [of i] show ?thesis by simp
    next
      case (Done i)
      with fin [of i] show ?thesis by simp
    next
      case Wait
      with ret show ?thesis by simp
    next
      case (Crash i)
      with fin [of i] show ?thesis by simp
    qed
  next
    assume "\<exists>p. status s = Aborted p \<and> out = Inl p"
    then obtain p where "status s = Aborted p" by blast
    then show ?thesis by (cases a) simp_all
  qed
qed

lemma pp_completes:
  assumes "pp_inv sl worker s"
  shows "\<exists>ext s' out. pp_run sl worker ext s = Some s' \<and> pp_outcome s' = Some out"
  using assms
proof (induction "pp_left sl s" arbitrary: s rule: less_induct)
  case less
  show ?case
  proof (cases "pp_outcome s")
    case (Some out)
    then have "pp_run sl worker [] s = Some s \<and> pp_outcome s = Some out" by simp
    then show ?thesis by blast
  next
    case None
    from pp_progress [OF less.prems None] obtain a t where t: "pp_step sl worker a s = Some t"
      by blast
    from less.prems t have "pp_inv sl worker t" by (rule pp_inv_step)
    from less.hyps [OF pp_step_decreases [OF t] this]
    obtain ext s' out where "pp_run sl worker ext t = Some s'" "pp_outcome s' = Some out"
      by blast
    with t have "pp_run sl worker (a # ext) s = Some s' \<and> pp_outcome s' = Some out" by simp
    then show ?thesis by blast
  qed
qed

subsection \<open>Complete runs\<close>

lemma parallelProcessing_Some:
  assumes "parallelProcessing sl worker sched = Some out"
  obtains s where "pp_run sl worker sched (pp_init sl) = Some s" "pp_inv sl worker s"
    "pp_outcome s = Some out"
proof -
  from assms obtain s where s: "pp_run sl worker sched (pp_init sl) = Some s"
    and o: "pp_outcome s = Some out"
    by (auto simp: parallelProcessing_def split: option.splits)
  with pp_inv_reachable [OF s] that show thesis by blast
qed

lemma complete_run_outcome:
  assumes ok: "\<forall>i<length sl. worker (sl ! i) = Inr (f (sl ! i))"
    and out: "parallelProcessing sl worker sched = Some out"
  shows "out = Inr (map f sl)"
proof -
  from out obtain s where inv: "pp_inv sl worker s" and o: "pp_outcome s = Some out"
    by (rule parallelProcessing_Some)
  from pp_outcome_cases [OF o] show ?thesis
  proof
    assume "status s = Returned \<and> \<not> list_ex dying (gs s) \<and> out = Inr (result s)"
    with returned_result [OF inv _ ok] show ?thesis by simp
  next
    assume "\<exists>p. status s = Aborted p \<and> out = Inl p"
    then obtain p where "status s = Aborted p" by blast
    from aborted_panics [OF inv this] ok show ?thesis by auto
  qed
qed

lemma run_extends_to_complete:
  assumes run: "pp_run sl worker sched (pp_init sl) = Some s"
  shows "\<exists>ext out. parallelProcessing sl worker (sched @ ext) = Some out"
proof -
  from pp_completes [OF pp_inv_reachable [OF run] ]
  obtain ext s' out where e: "pp_run sl worker ext s = Some s'" and o: "pp_outcome s' = Some out"
    by blast
  from run e have "pp_run sl worker (sched @ ext) (pp_init sl) = Some s'"
    by (simp add: pp_run_append)
  with o have "parallelProcessing sl worker (sched @ ext) = Some out"
    by (simp add: parallelProcessing_def)
  then show ?thesis by blast
qed

lemma panicking_task_aborts:
  assumes i: "i < length sl" and p: "worker (sl ! i) = Inl p"
    and out: "parallelProcessing sl worker sched = Some out"
  shows "\<exists>q j. out = Inl q \<and> j < length sl \<and> worker (sl ! j) = Inl q"
proof -
  from out obtain s where inv: "pp_inv sl worker s" and o: "pp_outcome s = Some out"
    by (rule parallelProcessing_Some)
  from pp_outcome_cases [OF o] show ?thesis
  proof
    assume r: "status s = Returned \<and> \<not> list_ex dying (gs s) \<and> out = Inr (result s)"
    then have ret: "status s = Returned" and nd: "\<not> list_ex dying (gs s)" by simp_all
    note g = returned_goroutine [OF inv ret i]
    from g(2) show ?thesis
    proof
      assume f: "gs s ! i = Finished"
      from inv_slotsD [OF pp_invD(2) [OF inv] i] g(1) f p show ?thesis by simp
    next
      assume "\<exists>q. gs s ! i = Dying q"
      with g(1) have "list_ex dying (gs s)" by (auto simp: list_ex_dying)
      with nd show ?thesis by contradiction
    qed
  next
    assume "\<exists>q. status s = Aborted q \<and> out = Inl q"
    then obtain q where q: "status s = Aborted q" "out = Inl q" by blast
    from aborted_panics [OF inv q(1)] q(2) show ?thesis by blast
  qed
qed





section \<open>Properties of the semaphore\<close>

lemma sem_step_overlap:
  assumes inv: "overlap s = length (ch s)" "length (ch s) \<le> cap"
    and step: "sem_step cap n sent a s = Some s'"
  shows "overlap s' = length (ch s') \<and> length (ch s') \<le> cap"
proof (cases a)
  case Start
  with step have "s' = s\<lparr>sem_wg := sem_wg s + 1, tasks := tasks s @ [Blocked],
                          started := Suc (started s)\<rparr>"
    by (simp split: if_splits)
  with inv show ?thesis by (simp add: overlap_def)
next
  case (Acquire i)
  with step have e: "i < length (tasks s)" "tasks s ! i = Blocked" "length (ch s) < cap"
    "s' = s\<lparr>ch := ch s @ [sent i], tasks := (tasks s)[i := Working]\<rparr>"
    by (simp_all split: if_splits)
  have "sum_list (map executing ((tasks s)[i := Working])) + executing (tasks s ! i)
        = sum_list (map executing (tasks s)) + executing Working"
    using e(1) by (rule sum_list_map_update)
  with e(2) have "sum_list (map executing ((tasks s)[i := Working]))
        = sum_list (map executing (tasks s)) + 1" by simp
  with inv e(3) show ?thesis by (simp add: overlap_def e(4))
next
  case (Release i)
  with step have e: "i < length (tasks s)" "tasks s ! i = Working"
    by (simp_all split: if_splits)
  from step Release e obtain x rest where ch: "ch s = x # rest"
    by (cases "ch s") (simp_all split: if_splits)
  from step Release e ch have s': "tasks s' = (tasks s)[i := Released]" "ch s' = rest"
    by (auto split: if_splits)
  have "sum_list (map executing ((tasks s)[i := Released])) + executing (tasks s ! i)
        = sum_list (map executing (tasks s)) + executing Released"
    using e(1) by (rule sum_list_map_update)
  with e(2) have "sum_list (map executing ((tasks s)[i := Released])) + 1
        = sum_list (map executing (tasks s))" by simp
  with inv ch show ?thesis by (simp add: overlap_def s')
next
  case Finish
  with step have "s' = s\<lparr>sem_status := Returned\<rparr>" by (simp split: if_splits)
  with inv show ?thesis by (simp add: overlap_def)
qed

lemma sem_run_overlap:
  assumes "overlap s = length (ch s)" "length (ch s) \<le> cap"
    and "sem_run cap n sent sched s = Some s'"
  shows "overlap s' = length (ch s') \<and> length (ch s') \<le> cap"
  using assms
proof (induction sched arbitrary: s)
  case Nil
  then show ?case by simp
next
  case (Cons a sched)
  from Cons.prems(3) obtain t where t: "sem_step cap n sent a s = Some t"
    and rest: "sem_run cap n sent sched t = Some s'"
    by (auto split: option.splits)
  from sem_step_overlap [OF Cons.prems(1,2) t]
  have "overlap t = length (ch t)" "length (ch t) \<le> cap" by simp_all
  from Cons.IH [OF this rest] show ?case .
qed

lemma sem_reachable_overlap:
  assumes "sem_run cap n sent sched sem_init = Some s"
  shows "overlap s \<le> cap"
proof -
  have "overlap sem_init = length (ch sem_init)" "length (ch sem_init) \<le> cap"
    by (simp_all add: overlap_def sem_init_def)
  from sem_run_overlap [OF this assms] show ?thesis by simp
qed

lemma two_executing:
  assumes i: "i < length ts" and j: "j < length ts" and ne: "i \<noteq> j"
    and wi: "ts ! i = Working" and wj: "ts ! j = Working"
  shows "2 \<le> sum_list (map executing ts)"
proof -
  have "sum_list (map executing (ts[i := Released])) + executing (ts ! i)
        = sum_list (map executing ts) + executing Released"
    using i by (rule sum_list_map_update)
  with wi have a: "sum_list (map executing (ts[i := Released])) + 1 = sum_list (map executing ts)"
    by simp
  from j have "j < length (ts[i := Released])" by simp
  then have "executing (ts[i := Released] ! j) \<le> sum_list (map executing (ts[i := Released]))"
    by (rule sum_list_map_ge)
  with ne wj have "1 \<le> sum_list (map executing (ts[i := Released]))" by simp
  with a show ?thesis by linarith
qed

text \<open>The WaitGroup counter never goes negative: no run of the semaphore panics.\<close>

lemma sem_step_wg:
  assumes inv: "sem_wg s = sum_list (map unreleased (tasks s))" "alive (sem_status s)"
    and step: "sem_step cap n sent a s = Some s'"
  shows "sem_wg s' = sum_list (map unreleased (tasks s')) \<and> alive (sem_status s')"
proof (cases a)
  case Start
  with step have "s' = s\<lparr>sem_wg := sem_wg s + 1, tasks := tasks s @ [Blocked],
                          started := Suc (started s)\<rparr>"
    by (simp split: if_splits)
  with inv show ?thesis by simp
next
  case (Acquire i)
  with step have e: "i < length (tasks s)" "tasks s ! i = Blocked"
    "s' = s\<lparr>ch := ch s @ [sent i], tasks := (tasks s)[i := Working]\<rparr>"
    by (simp_all split: if_splits)
  have "sum_list (map unreleased ((tasks s)[i := Working])) + unreleased (tasks s ! i)
        = sum_list (map unreleased (tasks s)) + unreleased Working"
    using e(1) by (rule sum_list_map_update)
  with e(2) have "sum_list (map unreleased ((tasks s)[i := Working]))
        = sum_list (map unreleased (tasks s))" by simp
  with inv show ?thesis by (simp add: e(3))
next
  case (Release i)
  with step have e: "i < length (tasks s)" "tasks s ! i = Working"
    by (simp_all split: if_splits)
  from step Release e obtain x rest where ch: "ch s = x # rest"
    by (cases "ch s") (simp_all split: if_splits)
  have "unreleased (tasks s ! i) \<le> sum_list (map unreleased (tasks s))"
    using e(1) by (rule sum_list_map_ge)
  moreover have "unreleased (tasks s ! i) = 1" using e(2) by simp
  ultimately have pos: "sem_wg s \<noteq> 0" using inv(1) by linarith
  with step Release e ch
  have s': "s' = s\<lparr>ch := rest, tasks := (tasks s)[i := Released], sem_wg := sem_wg s - 1\<rparr>"
    by (simp split: if_splits)
  have "sum_list (map unreleased ((tasks s)[i := Released])) + unreleased (tasks s ! i)
        = sum_list (map unreleased (tasks s)) + unreleased Released"
    using e(1) by (rule sum_list_map_update)
  with e(2) have "sum_list (map unreleased ((tasks s)[i := Released])) + 1
        = sum_list (map unreleased (tasks s))" by simp
  with inv(1) have "sem_wg s - 1 = sum_list (map unreleased ((tasks s)[i := Released]))"
    by linarith
  with inv(2) show ?thesis by (simp add: s')
next
  case Finish
  with step have "s' = s\<lparr>sem_status := Returned\<rparr>" by (simp split: if_splits)
  with inv show ?thesis by simp
qed

lemma sem_run_wg:
  assumes "sem_wg s = sum_list (map unreleased (tasks s))" "alive (sem_status s)"
    and "sem_run cap n sent sched s = Some s'"
  shows "sem_wg s' = sum_list (map unreleased (tasks s')) \<and> alive (sem_status s')"
  using assms
proof (induction sched arbitrary: s)
  case Nil
  then show ?case by simp
next
  case (Cons a sched)
  from Cons.prems(3) obtain t where t: "sem_step cap n sent a s = Some t"
    and rest: "sem_run cap n sent sched t = Some s'"
    by (auto split: option.splits)
  from sem_step_wg [OF Cons.prems(1,2) t]
  have "sem_wg t = sum_list (map unreleased (tasks t))" "alive (sem_status t)" by simp_all
  from Cons.IH [OF this rest] show ?case .
qed

lemma sem_never_aborts:
  assumes "sem_run cap n sent sched sem_init = Some s"
  shows "sem_status s \<noteq> Aborted p"
proof -
  have "sem_wg sem_init = sum_list (map unreleased (tasks sem_init))" "alive (sem_status sem_init)"
    by (simp_all add: sem_init_def)
  from sem_run_wg [OF this assms] have "alive (sem_status s)" by simp
  then show ?thesis by (cases "sem_status s") simp_all
qed


section \<open>The claims about the runner\<close>

text \<open>
  The repository has no function called \<open>Run\<close>: the code that submits a list of tasks,
  runs them concurrently and collects their results by submission index is
  \<open>parallelProcessing\<close>, and its sequential counterpart is \<open>mapSlice\<close>. Neither has a
  worker count, a timeout, a cancellation signal or an error result.
\<close>

text \<open>
  C1: for tasks that return (task \<open>i\<close> yields \<open>f\<close> of the \<open>i\<close>-th input), every complete
  run of \<open>parallelProcessing\<close>, under every interleaving of its goroutines, returns
  exactly one result per task, the result at index \<open>i\<close> being \<open>f\<close> of the \<open>i\<close>-th input; no
  run is longer than \<open>5 * N + 1\<close> steps and every run can be continued to one that
  returns this slice; \<open>mapSlice\<close> returns the same slice. Doubling \<open>[1, 2, 3]\<close> yields
  \<open>[2, 4, 6]\<close>, as the instance after the theorem shows.
\<close>

theorem parallelProcessing_returns_map:
  "(\<forall>i<length sl. worker (sl ! i) = Inr (f (sl ! i))) \<longrightarrow>
     (\<forall>sched out. parallelProcessing sl worker sched = Some out \<longrightarrow>
        (\<exists>res. out = Inr res \<and> length res = length sl \<and> (\<forall>i<length sl. res ! i = f (sl ! i)))) \<and>
     (\<forall>sched s. pp_run sl worker sched (pp_init sl) = Some s \<longrightarrow>
        length sched \<le> 5 * length sl + 1 \<and>
        (\<exists>ext. parallelProcessing sl worker (sched @ ext) = Some (Inr (map f sl)))) \<and>
     mapSlice sl f = map f sl"
proof (intro impI conjI allI)
  assume ok: "\<forall>i<length sl. worker (sl ! i) = Inr (f (sl ! i))"
  show "mapSlice sl f = map f sl" by (rule mapSlice_eq_map)
  {
    fix sched out
    assume "parallelProcessing sl worker sched = Some out"
    from complete_run_outcome [OF ok this] have "out = Inr (map f sl)" .
    then show "\<exists>res. out = Inr res \<and> length res = length sl \<and> (\<forall>i<length sl. res ! i = f (sl ! i))"
      by simp
  }
  {
    fix sched s
    assume run: "pp_run sl worker sched (pp_init sl) = Some s"
    from pp_run_length [OF run] show "length sched \<le> 5 * length sl + 1"
      by (simp add: pp_left_init)
    from run_extends_to_complete [OF run] obtain ext out
      where c: "parallelProcessing sl worker (sched @ ext) = Some out" by blast
    from complete_run_outcome [OF ok c] c
    show "\<exists>ext. parallelProcessing sl worker (sched @ ext) = Some (Inr (map f sl))" by blast
  }
qed

theorem parallelProcessing_returns_map_witness:
  "parallelProcessing [1, 2, 3] (\<lambda>v. Inr (v * 2))
     [Launch, Launch, Body 1, Launch, Body 2, Done 2, Body 0, Done 0, Done 1, Wait]
     = Some (Inr [2, 4, 6]) \<and>
   mapSlice [1, 2, 3] (\<lambda>v. v * 2) = [2, 4, 6]"
proof -
  let ?sl = "[1, 2, 3] :: go_int list"
  let ?w = "\<lambda>v :: go_int. Inr (v * 2) :: panic + go_int"
  let ?sched = "[Launch, Launch, Body 1, Launch, Body 2, Done 2, Body 0, Done 0, Done 1, Wait]"
  have ok: "\<forall>i<length ?sl. ?w (?sl ! i) = Inr ((\<lambda>v. v * 2) (?sl ! i))" by simp
  have "parallelProcessing ?sl ?w ?sched \<noteq> None"
    by (simp add: parallelProcessing_def pp_outcome_def pp_init_def)
  then obtain out where out: "parallelProcessing ?sl ?w ?sched = Some out" by blast
  from parallelProcessing_returns_map [of ?sl ?w "\<lambda>v. v * 2"] ok out
  obtain res where res: "out = Inr res" "length res = length ?sl"
    "\<forall>i<length ?sl. res ! i = (?sl ! i) * 2" by blast
  have "res = [2, 4, 6]"
  proof (rule nth_equalityI)
    show "length res = length [2, 4, 6 :: go_int]" using res(2) by simp
    fix i assume "i < length res"
    with res(2) have "i < 3" by simp
    then have "i = 0 \<or> i = 1 \<or> i = 2" by arith
    with res(3) show "res ! i = [2, 4, 6] ! i" by auto
  qed
  moreover from parallelProcessing_returns_map [of ?sl ?w "\<lambda>v. v * 2"] ok
  have "mapSlice ?sl (\<lambda>v. v * 2) = map (\<lambda>v. v * 2) ?sl" by blast
  ultimately show ?thesis using out res(1) by simp
qed







text \<open>
  C2, as stated, fails for the repository's runner: \<open>parallelProcessing\<close> has no
  \<open>recover\<close>, so a task function that panics terminates the whole program. With the
  tasks \<open>divide(10, 5)\<close>, \<open>divide(10, 0)\<close>, \<open>divide(10, 2)\<close> the first task completes, the
  second panics, the third never runs, and the run ends with the panic instead of a
  result.
\<close>

theorem parallelProcessing_panic_aborts:
  "parallelProcessing [5, 0, 2] (divide 10)
     [Launch, Launch, Launch, Body 0, Done 0, Body 1, Done 1, Crash 1]
     = Some (Inl (Panic ''division by zero''))"
  by (simp add: parallelProcessing_def pp_outcome_def pp_init_def divide_def)

text \<open>
  C2, amended: a panic raised inside \<open>safeDivide\<close> is recovered by its own deferred
  function and converted into the error of that call's result (result \<open>0\<close>, error
  "error: division by zero"), a call that does not panic is unaffected, and the caller
  (\<open>main\<close>) continues and prints the error. \<open>parallelProcessing\<close> does not recover: when
  one of its tasks panics, every run can be continued to its end, and every run that has
  ended has ended with the program terminated by the panic of a task, never with a
  returned result.
\<close>

theorem panic_recovered_by_safeDivide_only:
  "safeDivide a 0 =
     ([ [PStr ''Recovered from panic:'', PStr ''division by zero''] ], 0,
      Some ''error: division by zero'') \<and>
   (\<forall>p. safeDivide_body a b = Inl p \<longrightarrow> (\<exists>out e. safeDivide a b = (out, 0, Some e))) \<and>
   (b \<noteq> 0 \<longrightarrow> safeDivide a b = ([], go_div a b, None)) \<and>
   main_safeDivide =
     Exited [ [PStr ''Recovered from panic:'', PStr ''division by zero''],
             [PStr ''Error:'', PStr ''error: division by zero''] ] \<and>
   (\<forall>i p sched out.
      i < length sl \<and> worker (sl ! i) = Inl p \<and> parallelProcessing sl worker sched = Some out \<longrightarrow>
      (\<exists>q j. out = Inl q \<and> j < length sl \<and> worker (sl ! j) = Inl q)) \<and>
   (\<forall>sched s. pp_run sl worker sched (pp_init sl) = Some s \<longrightarrow>
      (\<exists>ext out. parallelProcessing sl worker (sched @ ext) = Some out))"
proof (intro conjI allI impI)
  show "safeDivide a 0 =
     ([ [PStr ''Recovered from panic:'', PStr ''division by zero''] ], 0,
      Some ''error: division by zero'')"
    by (simp add: safeDivide_def safeDivide_body_def)
  show "main_safeDivide =
     Exited [ [PStr ''Recovered from panic:'', PStr ''division by zero''],
             [PStr ''Error:'', PStr ''error: division by zero''] ]"
    by (simp add: main_safeDivide_def safeDivide_def safeDivide_body_def)
next
  fix p assume "safeDivide_body a b = Inl p"
  then show "\<exists>out e. safeDivide a b = (out, 0, Some e)"
    by (cases p) (simp add: safeDivide_def)
next
  assume "b \<noteq> 0"
  then show "safeDivide a b = ([], go_div a b, None)"
    by (simp add: safeDivide_def safeDivide_body_def)
next
  fix i p sched out
  assume "i < length sl \<and> worker (sl ! i) = Inl p \<and> parallelProcessing sl worker sched = Some out"
  then show "\<exists>q j. out = Inl q \<and> j < length sl \<and> worker (sl ! j) = Inl q"
    using panicking_task_aborts by blast
next
  fix sched s
  assume "pp_run sl worker sched (pp_init sl) = Some s"
  then show "\<exists>ext out. parallelProcessing sl worker (sched @ ext) = Some out"
    by (rule run_extends_to_complete)
qed

theorem panic_recovered_by_safeDivide_only_witness:
  "(2 :: go_int) \<noteq> 0 \<and> safeDivide 10 2 = ([], 5, None) \<and>
   safeDivide_body 10 0 = Inl (Panic ''division by zero'') \<and>
   safeDivide 10 0 =
     ([ [PStr ''Recovered from panic:'', PStr ''division by zero''] ], 0,
      Some ''error: division by zero'') \<and>
   (1 :: nat) < length [5, 0, 2 :: go_int] \<and>
   divide 10 ([5, 0, 2] ! 1) = Inl (Panic ''division by zero'') \<and>
   parallelProcessing [5, 0, 2] (divide 10) [Launch, Launch, Body 1, Done 1, Crash 1]
     = Some (Inl (Panic ''division by zero''))"
proof -
  note t = panic_recovered_by_safeDivide_only [of 10 2 "[5, 0, 2]" "divide 10"]
  have g: "go_div 10 2 = 5" by (simp add: go_div_def)
  from t g have 1: "safeDivide 10 2 = ([], 5, None)" by simp
  have 2: "safeDivide_body 10 0 = Inl (Panic ''division by zero'')"
    by (simp add: safeDivide_body_def)
  from t have 3: "safeDivide 10 0 =
     ([ [PStr ''Recovered from panic:'', PStr ''division by zero''] ], 0,
      Some ''error: division by zero'')" by blast
  have h: "(1 :: nat) < length [5, 0, 2 :: go_int]"
    "divide 10 ([5, 0, 2] ! 1) = Inl (Panic ''division by zero'')"
    by (simp_all add: divide_def)
  have "parallelProcessing [5, 0, 2] (divide 10) [Launch, Launch, Body 1, Done 1, Crash 1] \<noteq> None"
    by (simp add: parallelProcessing_def pp_outcome_def pp_init_def divide_def)
  then obtain out where out: "parallelProcessing [5, 0, 2] (divide 10) [Launch, Launch, Body 1, Done 1, Crash 1] = Some out"
    by blast
  with t h obtain q j where q: "out = Inl q" "j < length [5, 0, 2 :: go_int]"
    "divide 10 ([5, 0, 2] ! j) = Inl q" by blast
  from q(3) have "q = Panic ''division by zero''"
    by (simp add: divide_def split: if_splits)
  with out q(1) have 4: "parallelProcessing [5, 0, 2] (divide 10) [Launch, Launch, Body 1, Done 1, Crash 1]
     = Some (Inl (Panic ''division by zero''))" by simp
  from 1 2 3 h 4 show ?thesis by simp
qed


text \<open>
  C7: the number of tasks executing at once is bounded by the worker count, which in the
  code is the capacity of the buffered channel: in every reachable state at most that
  many tasks are between their send and their receive. With capacity \<open>1\<close> (as in
  \<open>exampleDataRace\<close>) two different tasks are never executing in the same state; with
  capacity \<open>5\<close> (as in \<open>exampleSyncBestPractices\<close>) at most five are. No run panics.
\<close>

theorem single_slot_serializes:
  "(\<forall>sched s. sem_run cap n sent sched sem_init = Some s \<longrightarrow> overlap s \<le> cap) \<and>
   (\<forall>sched s i j.
      sem_run 1 n sent sched sem_init = Some s \<and> i < length (tasks s) \<and> j < length (tasks s) \<and>
      tasks s ! i = Working \<and> tasks s ! j = Working \<longrightarrow> i = j) \<and>
   (\<forall>sched s. exampleDataRace sched = Some s \<longrightarrow> overlap s \<le> 1) \<and>
   (\<forall>sched s. exampleSyncBestPractices sched = Some s \<longrightarrow> overlap s \<le> 5) \<and>
   (\<forall>sched s p. sem_run cap n sent sched sem_init = Some s \<longrightarrow> sem_status s \<noteq> Aborted p)"
proof (intro conjI allI impI)
  fix sched s
  assume "sem_run cap n sent sched sem_init = Some s"
  then show "overlap s \<le> cap" by (rule sem_reachable_overlap)
next
  fix sched s i j
  assume a: "sem_run 1 n sent sched sem_init = Some s \<and> i < length (tasks s) \<and>
             j < length (tasks s) \<and> tasks s ! i = Working \<and> tasks s ! j = Working"
  then have run: "sem_run 1 n sent sched sem_init = Some s"
    and i: "i < length (tasks s)" and j: "j < length (tasks s)"
    and wi: "tasks s ! i = Working" and wj: "tasks s ! j = Working"
    by blast+
  from run have le: "overlap s \<le> 1" by (rule sem_reachable_overlap)
  show "i = j"
  proof (rule ccontr)
    assume "i \<noteq> j"
    with i j have "2 \<le> sum_list (map executing (tasks s))"
      using wi wj by (rule two_executing)
    with le show False by (simp add: overlap_def)
  qed
next
  fix sched s
  assume "exampleDataRace sched = Some s"
  then show "overlap s \<le> 1" unfolding exampleDataRace_def by (rule sem_reachable_overlap)
next
  fix sched s
  assume "exampleSyncBestPractices sched = Some s"
  then show "overlap s \<le> 5" unfolding exampleSyncBestPractices_def by (rule sem_reachable_overlap)
next
  fix sched s p
  assume "sem_run cap n sent sched sem_init = Some s"
  then show "sem_status s \<noteq> Aborted p" by (rule sem_never_aborts)
qed

theorem single_slot_serializes_witness:
  "exampleDataRace [Start, Start, Acquire 1] \<noteq> None \<and>
   tasks (the (exampleDataRace [Start, Start, Acquire 1])) = [Blocked, Working] \<and>
   overlap (the (exampleDataRace [Start, Start, Acquire 1])) = 1 \<and>
   exampleDataRace [Start, Start, Acquire 1, Acquire 0] = None \<and>
   exampleDataRace [Start, Start, Acquire 1, Release 1, Acquire 0] \<noteq> None \<and>
   overlap (the (exampleSyncBestPractices [Start, Start, Acquire 1, Acquire 0])) = 2"
proof -
  have r: "exampleDataRace [Start, Start, Acquire 1] \<noteq> None"
    by (simp add: exampleDataRace_def sem_init_def)
  then obtain s where s: "exampleDataRace [Start, Start, Acquire 1] = Some s" by blast
  have t: "tasks (the (exampleDataRace [Start, Start, Acquire 1])) = [Blocked, Working]"
    by (simp add: exampleDataRace_def sem_init_def)
  from s single_slot_serializes [of 1 10 "\<lambda>i. 1"] have "overlap s \<le> 1" by blast
  moreover from s t have "overlap s = 1" by (simp add: overlap_def)
  ultimately have o: "overlap (the (exampleDataRace [Start, Start, Acquire 1])) = 1"
    using s by simp
  have b: "exampleDataRace [Start, Start, Acquire 1, Acquire 0] = None"
    by (simp add: exampleDataRace_def sem_init_def)
  have c: "exampleDataRace [Start, Start, Acquire 1, Release 1, Acquire 0] \<noteq> None"
    by (simp add: exampleDataRace_def sem_init_def)
  have d: "overlap (the (exampleSyncBestPractices [Start, Start, Acquire 1, Acquire 0])) = 2"
    by (simp add: exampleSyncBestPractices_def sem_init_def overlap_def)
  from r t o b c d show ?thesis by simp
qed


end
